theory Spec2Isabelle
  imports
    Main
    "HOL-Library.AList"
    "HOL-Library.Multiset"
    "HOL-Library.Char_ord"
    "HOL-Library.List_Lexorder"
begin

section \<open>Machine integers\<close>

text \<open>
  Go's \<^verbatim>\<open>int\<close> is a 64-bit two's complement integer on the platforms the tool is built
  for. It is modelled as a mathematical integer; every addition and subtraction of the
  source that can leave the 64-bit range is passed through \<open>wrap64\<close>, which is the
  identity on the range and wraps around outside of it.
\<close>

definition maxInt :: int where
  "maxInt = 9223372036854775807"

definition minInt :: int where
  "minInt = - 9223372036854775808"

definition wrap64 :: "int \<Rightarrow> int" where
  "wrap64 x = (x + 9223372036854775808) mod 18446744073709551616 - 9223372036854775808"

definition in_int64 :: "int \<Rightarrow> bool" where
  "in_int64 x = (minInt \<le> x \<and> x \<le> maxInt)"

section \<open>Package coverage: the data model\<close>

text \<open>
  Modelled from the spec: the type \<^verbatim>\<open>Block\<close>, the type \<^verbatim>\<open>Profile\<close> and the
  method \<^verbatim>\<open>IsCovered\<close> are declared in a file of package coverage that is not among the
  sources. The fields \<^verbatim>\<open>FileName\<close>, \<^verbatim>\<open>StartLine\<close>, \<^verbatim>\<open>StartCol\<close>,
  \<^verbatim>\<open>EndLine\<close> and \<^verbatim>\<open>Blocks\<close> are the ones \<^verbatim>\<open>GetUncoveredLines\<close> reads; the end
  column and the execution count are named after the spec (section 3), which also gives
  \<^verbatim>\<open>isCovered() \<Leftrightarrow> executionCount > 0\<close>.
\<close>

record Block =
  FileName :: string
  StartLine :: int
  StartCol :: int
  EndLine :: int
  EndCol :: int
  ExecutionCount :: int

definition IsCovered :: "Block \<Rightarrow> bool" where
  "IsCovered block = (ExecutionCount block > 0)"

record Profile =
  Blocks :: "Block list"

record UncoveredLine =
  Line :: int
  Col :: int

text \<open>
  The field \<^verbatim>\<open>FileName\<close> of \<^verbatim>\<open>FileUncovered\<close> is named \<open>FileNameU\<close>, apart from the
  field of the same name of \<^verbatim>\<open>Block\<close>. The functions pass \<^verbatim>\<open>Profile\<close> and
  \<^verbatim>\<open>FileUncovered\<close> by pointer; the pointers are not nil and are modelled by the values.
\<close>

record FileUncovered =
  FileNameU :: string
  Lines :: "UncoveredLine list"

section \<open>Package coverage: GetUncoveredLines\<close>

text \<open>
  A Go map is modelled as an association list with distinct keys: \<open>map_of\<close> reads it and
  \<open>AList.update\<close> stores into it. \<^verbatim>\<open>fileMap\<close> maps a file name to the map of that file,
  which maps a line number to a column.
\<close>

type_synonym lineMap = "(int \<times> int) list"
type_synonym fileMap = "(string \<times> lineMap) list"

text \<open>The candidate column of a line of a block (source lines 44 to 47).\<close>

definition candidateCol :: "Block \<Rightarrow> int \<Rightarrow> int" where
  "candidateCol block line = (if line = StartLine block then StartCol block else 0)"

text \<open>
  Source lines 49 to 51: the column is stored when the line has none yet, or when it is
  smaller than the stored one.
\<close>

definition storeLine :: "lineMap \<Rightarrow> int \<Rightarrow> int \<Rightarrow> lineMap" where
  "storeLine m line col =
     (case map_of m line of
        None \<Rightarrow> AList.update line col m
      | Some existingCol \<Rightarrow> if col < existingCol then AList.update line col m else m)"

text \<open>
  The loop of source lines 43 to 52, on the map of the block's file. The increment
  \<^verbatim>\<open>line++\<close> wraps around, so with \<open>EndLine block = maxInt\<close> the condition
  \<^verbatim>\<open>line <= block.EndLine\<close> never fails and the loop does not return: the result
  \<open>None\<close> of the partial function.
\<close>

partial_function (option) addLines :: "Block \<Rightarrow> int \<Rightarrow> lineMap \<Rightarrow> lineMap option" where
  "addLines block line m =
     (if line \<le> EndLine block
      then addLines block (wrap64 (line + 1)) (storeLine m line (candidateCol block line))
      else Some m)"

text \<open>
  One iteration of the loop over the blocks (source lines 33 to 53). The map of the file
  is created when it is missing (lines 38 to 40), before any line is added to it; Go maps
  are references, so the lines stored by the inner loop are seen through \<^verbatim>\<open>fileMap\<close>.
\<close>

definition processBlock :: "Block \<Rightarrow> fileMap \<Rightarrow> fileMap option" where
  "processBlock block fm =
     (if IsCovered block then Some fm
      else
        (let m = (case map_of fm (FileName block) of None \<Rightarrow> [] | Some m' \<Rightarrow> m')
         in case addLines block (StartLine block) m of
              None \<Rightarrow> None
            | Some m' \<Rightarrow> Some (AList.update (FileName block) m' fm)))"

fun processBlocks :: "Block list \<Rightarrow> fileMap \<Rightarrow> fileMap option" where
  "processBlocks [] fm = Some fm"
| "processBlocks (block # blocks) fm =
     (case processBlock block fm of
        None \<Rightarrow> None
      | Some fm' \<Rightarrow> processBlocks blocks fm')"

text \<open>
  Source lines 56 to 79. The iteration order of a Go map is not specified; the entries
  are taken in the order of the association list and then sorted by their key. Keys are
  distinct, so the sorted result does not depend on the order of the entries nor on the
  sorting algorithm (lemma \<open>sorted_permutation_unique\<close> below).
\<close>

definition toLines :: "lineMap \<Rightarrow> UncoveredLine list" where
  "toLines m = sort_key Line (map (\<lambda>(line, col). \<lparr>Line = line, Col = col\<rparr>) m)"

definition toResult :: "fileMap \<Rightarrow> FileUncovered list" where
  "toResult fm =
     sort_key FileNameU (map (\<lambda>(fileName, m). \<lparr>FileNameU = fileName, Lines = toLines m\<rparr>) fm)"

definition GetUncoveredLines :: "Profile \<Rightarrow> FileUncovered list option" where
  "GetUncoveredLines profile =
     (case processBlocks (Blocks profile) [] of
        None \<Rightarrow> None
      | Some fm \<Rightarrow> Some (toResult fm))"

section \<open>Package renderer: formatting\<close>

text \<open>
  The writer \<^verbatim>\<open>w\<close> is modelled by the text written to it so far: a function that
  writes takes the text and returns it extended. The results of the write calls are
  dropped by the source, so writing never fails in the model.
\<close>

definition contextLines :: int where
  "contextLines = 3"

definition max_int :: "int \<Rightarrow> int \<Rightarrow> int" where
  "max_int a b = (if a > b then a else b)"

definition min_int :: "int \<Rightarrow> int \<Rightarrow> int" where
  "min_int a b = (if a < b then a else b)"

definition esc :: char where
  "esc = CHR 0x1B"

definition newline :: char where
  "newline = CHR 0x0A"

text \<open>The verb \<^verbatim>\<open>%d\<close> of \<^verbatim>\<open>fmt\<close>: decimal digits, with a minus sign below zero.\<close>

definition digit :: "nat \<Rightarrow> char" where
  "digit n = char_of (48 + n)"

fun digits :: "nat \<Rightarrow> string" where
  "digits n = (if n < 10 then [digit n] else digits (n div 10) @ [digit (n mod 10)])"

definition fmt_d :: "int \<Rightarrow> string" where
  "fmt_d n = (if n < 0 then CHR ''-'' # digits (nat (- n)) else digits (nat n))"

text \<open>The verb \<^verbatim>\<open>%5d\<close>: padded with spaces on the left to width 5, never cut.\<close>

definition fmt_5d :: "int \<Rightarrow> string" where
  "fmt_5d n = replicate (5 - length (fmt_d n)) CHR '' '' @ fmt_d n"

text \<open>
  \<^verbatim>\<open>strings.Repeat\<close>. It panics on a negative count; its one call passes
  \<^verbatim>\<open>min(80, len(header))\<close>, which is never negative.
\<close>

definition Repeat :: "string \<Rightarrow> int \<Rightarrow> string" where
  "Repeat s n = concat (replicate (nat n) s)"

text \<open>Source lines 167 to 177.\<close>

definition renderLine :: "string \<Rightarrow> int \<Rightarrow> string \<Rightarrow> bool \<Rightarrow> string" where
  "renderLine w lineNum content isUncovered =
     (let prefix = (if isUncovered then esc # ''[31m>'' @ esc # ''[0m '' else ''  '');
          lineNumStr = (if isUncovered then esc # ''[31m'' @ fmt_5d lineNum @ esc # ''[0m''
                        else fmt_5d lineNum)
      in w @ prefix @ '' '' @ lineNumStr @ '' '' @ content @ [newline])"

text \<open>Source lines 180 to 184.\<close>

definition headerText :: "string \<Rightarrow> int \<Rightarrow> int \<Rightarrow> string" where
  "headerText fileName uncoveredCount totalLines =
     fileName @ '' ('' @ fmt_d uncoveredCount @ '' of '' @ fmt_d totalLines @ '' lines uncovered)''"

definition printFileHeader :: "string \<Rightarrow> string \<Rightarrow> int \<Rightarrow> int \<Rightarrow> string" where
  "printFileHeader w fileName uncoveredCount totalLines =
     (let header = headerText fileName uncoveredCount totalLines;
          w1 = w @ esc # ''[1m'' @ header @ esc # ''[0m'' @ [newline]
      in w1 @ Repeat ''='' (min_int 80 (int (length header))) @ [newline])"

section \<open>Package renderer: grouping\<close>

record lineGroup =
  start :: int
  end' :: int
  lines :: "UncoveredLine list"

text \<open>
  The loop of source lines 128 to 141, over the lines after the first, with the current
  group and the groups closed so far. The sum \<^verbatim>\<open>currentGroup.end+2*contextLines+1\<close>
  wraps around.
\<close>

fun groupLoop :: "UncoveredLine list \<Rightarrow> lineGroup \<Rightarrow> lineGroup list \<Rightarrow> lineGroup list" where
  "groupLoop [] currentGroup groups = groups @ [currentGroup]"
| "groupLoop (l # rest) currentGroup groups =
     (if Line l \<le> wrap64 (end' currentGroup + 2 * contextLines + 1)
      then groupLoop rest (currentGroup\<lparr>end' := Line l, lines := lines currentGroup @ [l]\<rparr>) groups
      else groupLoop rest \<lparr>start = Line l, end' = Line l, lines = [l]\<rparr> (groups @ [currentGroup]))"

definition groupLines :: "UncoveredLine list \<Rightarrow> lineGroup list" where
  "groupLines ls =
     (case ls of
        [] \<Rightarrow> []
      | l # rest \<Rightarrow> groupLoop rest \<lparr>start = Line l, end' = Line l, lines = [l]\<rparr> [])"

section \<open>Package renderer: rendering\<close>

text \<open>
  A call either returns or panics. The index expression \<^verbatim>\<open>allLines[lineNum-1]\<close> panics
  out of range.
\<close>

datatype 'a run = Returns 'a | Panics

text \<open>
  Source lines 150 to 153: the set of the uncovered line numbers of the group, a
  \<^verbatim>\<open>map[int]bool\<close> read with the default \<^verbatim>\<open>false\<close>.
\<close>

definition uncoveredSet :: "lineGroup \<Rightarrow> int \<Rightarrow> bool" where
  "uncoveredSet grp = fold (\<lambda>line s. s(Line line := True)) (lines grp) (\<lambda>_. False)"

text \<open>
  The loop of source lines 160 to 163 over the line numbers from \<^verbatim>\<open>startLine\<close> to
  \<^verbatim>\<open>endLine\<close>. The bound \<^verbatim>\<open>endLine\<close> is at most \<^verbatim>\<open>len(allLines)\<close>, the length
  of a slice held in memory, which is far below \<open>maxInt\<close>: the increment of
  \<^verbatim>\<open>lineNum\<close> does not wrap around, and the loop runs through the numbers of
  \<open>[startLine..endLine]\<close> in order.
\<close>

fun renderLoop :: "string \<Rightarrow> string list \<Rightarrow> (int \<Rightarrow> bool) \<Rightarrow> int list \<Rightarrow> string run" where
  "renderLoop w allLines isUnc [] = Returns w"
| "renderLoop w allLines isUnc (lineNum # rest) =
     (if 0 \<le> lineNum - 1 \<and> lineNum - 1 < int (length allLines)
      then renderLoop (renderLine w lineNum (allLines ! nat (lineNum - 1)) (isUnc lineNum))
             allLines isUnc rest
      else Panics)"

definition renderGroup :: "string \<Rightarrow> string list \<Rightarrow> lineGroup \<Rightarrow> string run" where
  "renderGroup w allLines grp =
     (let startLine = max_int 1 (wrap64 (start grp - contextLines));
          endLine = min_int (int (length allLines)) (wrap64 (end' grp + contextLines))
      in renderLoop w allLines (uncoveredSet grp) [startLine..endLine])"

text \<open>
  The loop of source lines 98 to 103; \<open>i\<close> is the index of the first group of the list.
\<close>

fun renderGroups :: "string \<Rightarrow> string list \<Rightarrow> nat \<Rightarrow> lineGroup list \<Rightarrow> string run" where
  "renderGroups w allLines i [] = Returns w"
| "renderGroups w allLines i (grp # groups) =
     (case renderGroup (if i > 0 then w @ [newline] else w) allLines grp of
        Panics \<Rightarrow> Panics
      | Returns w' \<Rightarrow> renderGroups w' allLines (Suc i) groups)"

text \<open>
  The file system is outside of the program. Opening a file by name fails with an error
  or gives a file; scanning the file (\<^verbatim>\<open>readLines\<close>, source lines 187 to 194) gives the
  lines read and the scanner's error, if any.
\<close>

datatype error = IOError string | RenderingError string error

type_synonym sourceFile = "string list \<times> error option"
type_synonym filesystem = "string \<Rightarrow> error + sourceFile"

text \<open>
  Source lines 77 to 106. The result is the text written and the error returned
  (\<open>None\<close> for \<^verbatim>\<open>nil\<close>).
\<close>

definition renderFile :: "filesystem \<Rightarrow> string \<Rightarrow> FileUncovered \<Rightarrow> (string \<times> error option) run" where
  "renderFile fs w fileUncovered =
     (case fs (FileNameU fileUncovered) of
        Inl err \<Rightarrow> Returns (w, Some err)
      | Inr (allLines, scanErr) \<Rightarrow>
          (case scanErr of
             Some err \<Rightarrow> Returns (w, Some err)
           | None \<Rightarrow>
               (let w1 = printFileHeader w (FileNameU fileUncovered)
                           (int (length (Lines fileUncovered))) (int (length allLines));
                    groups = groupLines (Lines fileUncovered)
                in case renderGroups w1 allLines 0 groups of
                     Panics \<Rightarrow> Panics
                   | Returns w' \<Rightarrow> Returns (w', None))))"

text \<open>
  The loop of source lines 64 to 72 and the return of line 73; \<open>i\<close> is the index of the
  first file of the list.
\<close>

fun renderFiles :: "filesystem \<Rightarrow> string \<Rightarrow> nat \<Rightarrow> FileUncovered list \<Rightarrow> (string \<times> error option) run" where
  "renderFiles fs w i [] = Returns (w, None)"
| "renderFiles fs w i (fileUncovered # rest) =
     (case renderFile fs (if i > 0 then w @ [newline] else w) fileUncovered of
        Panics \<Rightarrow> Panics
      | Returns (w', Some err) \<Rightarrow> Returns (w', Some (RenderingError (FileNameU fileUncovered) err))
      | Returns (w', None) \<Rightarrow> renderFiles fs w' (Suc i) rest)"

definition Render :: "filesystem \<Rightarrow> string \<Rightarrow> FileUncovered list \<Rightarrow> (string \<times> error option) run" where
  "Render fs w uncovered = renderFiles fs w 0 uncovered"

section \<open>Notions used in the proofs\<close>

text \<open>The inner loop as a fold over the line numbers it visits, for the blocks on which it
  returns (lemma \<open>addLines_terminates\<close>).\<close>

definition addLinesP :: "Block \<Rightarrow> int list \<Rightarrow> lineMap \<Rightarrow> lineMap" where
  "addLinesP block ls m = fold (\<lambda>line m'. storeLine m' line (candidateCol block line)) ls m"

text \<open>One block processed, where the inner loop returns.\<close>

definition processBlockP :: "Block \<Rightarrow> fileMap \<Rightarrow> fileMap" where
  "processBlockP block fm =
     (if IsCovered block then fm
      else AList.update (FileName block)
             (addLinesP block [StartLine block..EndLine block]
                (case map_of fm (FileName block) of None \<Rightarrow> [] | Some m' \<Rightarrow> m')) fm)"

text \<open>The numbers of a block are values of Go's \<^verbatim>\<open>int\<close>.\<close>

definition int64_block :: "Block \<Rightarrow> bool" where
  "int64_block block =
     (in_int64 (StartLine block) \<and> in_int64 (StartCol block) \<and> in_int64 (EndLine block) \<and>
      in_int64 (EndCol block) \<and> in_int64 (ExecutionCount block))"

text \<open>A block on which the inner loop does not return: it is uncovered and its last line is
  the largest integer.\<close>

definition loops_forever :: "Block \<Rightarrow> bool" where
  "loops_forever block = (\<not> IsCovered block \<and> EndLine block = maxInt)"

text \<open>A block on which the inner loop returns.\<close>

definition block_ok :: "Block \<Rightarrow> bool" where
  "block_ok block = (int64_block block \<and> \<not> loops_forever block)"

text \<open>A profile of Go values on which the extraction returns.\<close>

definition profile_ok :: "Profile \<Rightarrow> bool" where
  "profile_ok profile = list_all block_ok (Blocks profile)"

text \<open>An uncovered block of file \<open>f\<close> whose span holds line \<open>l\<close>.\<close>

definition covers :: "Block \<Rightarrow> string \<Rightarrow> int \<Rightarrow> bool" where
  "covers block f l = (\<not> IsCovered block \<and> FileName block = f \<and> StartLine block \<le> l \<and> l \<le> EndLine block)"

text \<open>The candidate columns of line \<open>l\<close> of file \<open>f\<close>, over all uncovered blocks that hold it.\<close>

definition candidates :: "Block list \<Rightarrow> string \<Rightarrow> int \<Rightarrow> int set" where
  "candidates blocks f l = (\<lambda>b. candidateCol b l) ` {b \<in> set blocks. covers b f l}"

text \<open>The files that have an uncovered block.\<close>

definition fileSet :: "Block list \<Rightarrow> string set" where
  "fileSet blocks = FileName ` {b \<in> set blocks. \<not> IsCovered b}"

text \<open>The lines of file \<open>f\<close> that an uncovered block holds.\<close>

definition lineSet :: "Block list \<Rightarrow> string \<Rightarrow> int set" where
  "lineSet blocks f = {l. \<exists>b\<in>set blocks. covers b f l}"

text \<open>The invariant of the loop over the blocks: what \<^verbatim>\<open>fileMap\<close> holds after the blocks
  \<open>blocks\<close>.\<close>

definition fileMap_inv :: "Block list \<Rightarrow> fileMap \<Rightarrow> bool" where
  "fileMap_inv blocks fm =
     (distinct (map fst fm) \<and> fst ` set fm = fileSet blocks \<and>
      (\<forall>f m. map_of fm f = Some m \<longrightarrow>
         distinct (map fst m) \<and>
         (\<forall>l. map_of m l =
            (if candidates blocks f l = {} then None else Some (Min (candidates blocks f l))))))"

text \<open>The smallest candidate column of a line.\<close>

definition minCol :: "Block list \<Rightarrow> string \<Rightarrow> int \<Rightarrow> int" where
  "minCol blocks f l = Min (candidates blocks f l)"

text \<open>The result of the extraction in closed form: a function of the set of the blocks.\<close>

definition uncovered_canonical :: "Block list \<Rightarrow> FileUncovered list" where
  "uncovered_canonical blocks =
     map (\<lambda>f. \<lparr>FileNameU = f,
               Lines = map (\<lambda>l. \<lparr>Line = l, Col = minCol blocks f l\<rparr>)
                         (sorted_list_of_set (lineSet blocks f))\<rparr>)
         (sorted_list_of_set (fileSet blocks))"

text \<open>The test of source line 130: line \<open>y\<close> is merged into a group that ends at line \<open>x\<close>.\<close>

definition close_to :: "UncoveredLine \<Rightarrow> UncoveredLine \<Rightarrow> bool" where
  "close_to x y = (Line y \<le> wrap64 (Line x + 2 * contextLines + 1))"

text \<open>The input cut after every line that the next line is not merged with.\<close>

fun runs :: "UncoveredLine list \<Rightarrow> UncoveredLine list list" where
  "runs [] = []"
| "runs [x] = [[x]]"
| "runs (x # y # zs) =
     (if close_to x y
      then (case runs (y # zs) of [] \<Rightarrow> [[x]] | r # rs \<Rightarrow> (x # r) # rs)
      else [x] # runs (y # zs))"

text \<open>The group of a run of lines.\<close>

definition groupOf :: "UncoveredLine list \<Rightarrow> lineGroup" where
  "groupOf r = \<lparr>start = Line (hd r), end' = Line (last r), lines = r\<rparr>"

text \<open>The line numbers are values of Go's \<^verbatim>\<open>int\<close>, and the sum of source line 130 does not
  leave the 64-bit range.\<close>

definition mergeable :: "UncoveredLine list \<Rightarrow> bool" where
  "mergeable ls =
     list_all (\<lambda>l. in_int64 (Line l) \<and> in_int64 (Line l + 2 * contextLines + 1)) ls"

text \<open>Strictly increasing line numbers, as the extraction gives them.\<close>

definition ascending :: "UncoveredLine list \<Rightarrow> bool" where
  "ascending ls = sorted_wrt (\<lambda>a b. Line a < Line b) ls"

text \<open>An uncovered block of file \<open>f\<close>, from line \<open>s\<close>, column \<open>c\<close>, to line \<open>e\<close>.\<close>

definition blockAt :: "string \<Rightarrow> int \<Rightarrow> int \<Rightarrow> int \<Rightarrow> Block" where
  "blockAt f s c e =
     \<lparr>FileName = f, StartLine = s, StartCol = c, EndLine = e, EndCol = 1, ExecutionCount = 0\<rparr>"

text \<open>An uncovered line with column 0.\<close>

definition lineAt :: "int \<Rightarrow> UncoveredLine" where
  "lineAt l = \<lparr>Line = l, Col = 0\<rparr>"

text \<open>Opening and scanning a source file, as \<^verbatim>\<open>renderFile\<close> does in source lines 79 to
  89: the lines of the file, or the error of the step that failed.\<close>

definition readSource :: "filesystem \<Rightarrow> string \<Rightarrow> error + string list" where
  "readSource fs name =
     (case fs name of
        Inl err \<Rightarrow> Inl err
      | Inr (allLines, scanErr) \<Rightarrow> (case scanErr of Some err \<Rightarrow> Inl err | None \<Rightarrow> Inr allLines))"

text \<open>The text that \<^verbatim>\<open>renderLine\<close> writes for line \<open>n\<close> of the file within a group.\<close>

definition lineText :: "string list \<Rightarrow> lineGroup \<Rightarrow> int \<Rightarrow> string" where
  "lineText allLines grp n =
     renderLine [] n (allLines ! nat (n - 1)) (n \<in> Line ` set (lines grp))"

text \<open>A file system with the one file \<^verbatim>\<open>a.go\<close>, of two lines.\<close>

definition exampleFS :: filesystem where
  "exampleFS name =
     (if name = ''a.go'' then Inr ([''x'', ''y''], None) else Inl (IOError ''no such file''))"

text \<open>The number that a string of decimal digits denotes.\<close>

definition decimal :: "string \<Rightarrow> nat" where
  "decimal s = foldl (\<lambda>a c. 10 * a + (of_char c - 48)) 0 s"

section \<open>Properties of the extraction\<close>

lemma wrap64_id: "in_int64 x \<Longrightarrow> wrap64 x = x"
  by (simp add: in_int64_def wrap64_def minInt_def maxInt_def)

lemma map_of_storeLine:
  "map_of (storeLine m line col) =
     (map_of m)(line \<mapsto> (case map_of m line of None \<Rightarrow> col | Some c \<Rightarrow> min c col))"
  by (auto simp: storeLine_def update_conv' min_def fun_eq_iff split: option.splits)

lemma distinct_storeLine:
  "distinct (map fst m) \<Longrightarrow> distinct (map fst (storeLine m line col))"
  by (simp add: storeLine_def distinct_update split: option.splits)

lemma addLines_terminates:
  "minInt \<le> line \<Longrightarrow> EndLine block < maxInt \<Longrightarrow>
   addLines block line m = Some (addLinesP block [line..EndLine block] m)"
proof (induction "nat (EndLine block + 1 - line)" arbitrary: line m)
  case 0
  then have "\<not> line \<le> EndLine block" by simp
  then show ?case by (simp add: addLines.simps addLinesP_def)
next
  case (Suc n)
  then have le: "line \<le> EndLine block" by simp
  have w: "wrap64 (line + 1) = line + 1"
    using le Suc.prems by (intro wrap64_id) (simp add: in_int64_def)
  have "addLines block (line + 1) (storeLine m line (candidateCol block line)) =
        Some (addLinesP block [line + 1..EndLine block] (storeLine m line (candidateCol block line)))"
    using Suc by (intro Suc.hyps) auto
  then show ?case
    using le w by (subst addLines.simps) (simp add: addLinesP_def upto_rec1)
qed

lemma distinct_addLinesP:
  "distinct (map fst m) \<Longrightarrow> distinct (map fst (addLinesP block ls m))"
  by (induction ls arbitrary: m) (simp_all add: addLinesP_def distinct_storeLine)

lemma map_of_addLinesP:
  "distinct ls \<Longrightarrow>
   map_of (addLinesP block ls m) l =
     (if l \<in> set ls
      then Some (case map_of m l of None \<Rightarrow> candidateCol block l | Some c \<Rightarrow> min c (candidateCol block l))
      else map_of m l)"
proof (induction ls arbitrary: m)
  case Nil
  then show ?case by (simp add: addLinesP_def)
next
  case (Cons a ls)
  have "addLinesP block (a # ls) m = addLinesP block ls (storeLine m a (candidateCol block a))"
    by (simp add: addLinesP_def)
  with Cons show ?case by (auto simp: map_of_storeLine)
qed

lemma processBlock_terminates:
  assumes "block_ok block"
  shows "processBlock block fm = Some (processBlockP block fm)"
proof (cases "IsCovered block")
  case True
  then show ?thesis by (simp add: processBlock_def processBlockP_def)
next
  case False
  with assms have "minInt \<le> StartLine block" "EndLine block < maxInt"
    by (simp_all add: block_ok_def int64_block_def loops_forever_def in_int64_def)
  then show ?thesis
    using False by (simp add: processBlock_def processBlockP_def addLines_terminates Let_def)
qed

lemma processBlocks_terminates:
  "\<forall>b\<in>set blocks. block_ok b \<Longrightarrow> processBlocks blocks fm = Some (fold processBlockP blocks fm)"
  by (induction blocks arbitrary: fm) (simp_all add: processBlock_terminates)

lemma finite_candidates: "finite (candidates blocks f l)"
  by (simp add: candidates_def)

lemma candidates_snoc:
  "candidates (blocks @ [b]) f l =
     (if covers b f l then insert (candidateCol b l) (candidates blocks f l) else candidates blocks f l)"
  by (auto simp: candidates_def)

lemma fileSet_snoc:
  "fileSet (blocks @ [b]) = (if IsCovered b then fileSet blocks else insert (FileName b) (fileSet blocks))"
  by (auto simp: fileSet_def)

lemma candidates_not_file:
  "f \<notin> fileSet blocks \<Longrightarrow> candidates blocks f l = {}"
  by (auto simp: candidates_def fileSet_def covers_def)

lemma fileMap_inv_Nil: "fileMap_inv [] []"
  by (simp add: fileMap_inv_def fileSet_def)

lemma fileMap_inv_step:
  assumes inv: "fileMap_inv blocks fm"
  shows "fileMap_inv (blocks @ [b]) (processBlockP b fm)"
proof (cases "IsCovered b")
  case True
  then have "candidates (blocks @ [b]) = candidates blocks"
    by (simp add: candidates_snoc covers_def fun_eq_iff)
  with True inv show ?thesis
    by (simp add: fileMap_inv_def processBlockP_def fileSet_snoc)
next
  case False
  define f0 where "f0 = FileName b"
  define m0 where "m0 = (case map_of fm f0 of None \<Rightarrow> [] | Some m' \<Rightarrow> m')"
  define m1 where "m1 = addLinesP b [StartLine b..EndLine b] m0"
  have fm': "processBlockP b fm = AList.update f0 m1 fm"
    using False by (simp add: processBlockP_def f0_def m0_def m1_def)
  have d0: "distinct (map fst m0)"
    using inv by (auto simp: m0_def fileMap_inv_def split: option.splits)
  have v0: "map_of m0 l = (if candidates blocks f0 l = {} then None else Some (Min (candidates blocks f0 l)))" for l
  proof (cases "map_of fm f0")
    case None
    then have "f0 \<notin> fst ` set fm" by (simp add: map_of_eq_None_iff)
    then have "f0 \<notin> fileSet blocks" using inv by (simp add: fileMap_inv_def)
    then show ?thesis using None by (simp add: m0_def candidates_not_file)
  next
    case (Some m)
    then show ?thesis using inv by (simp add: m0_def fileMap_inv_def)
  qed
  have d1: "distinct (map fst m1)"
    using d0 by (simp add: m1_def distinct_addLinesP)
  have v1: "map_of m1 l =
      (if candidates (blocks @ [b]) f0 l = {} then None else Some (Min (candidates (blocks @ [b]) f0 l)))" for l
  proof (cases "covers b f0 l")
    case True
    then have "l \<in> set [StartLine b..EndLine b]" by (simp add: covers_def)
    then have "map_of m1 l = Some (case map_of m0 l of None \<Rightarrow> candidateCol b l | Some c \<Rightarrow> min c (candidateCol b l))"
      by (simp add: m1_def map_of_addLinesP)
    then show ?thesis
      using True by (simp add: v0 candidates_snoc finite_candidates min.commute)
  next
    case False
    then have "l \<notin> set [StartLine b..EndLine b]"
      using \<open>\<not> IsCovered b\<close> by (simp add: covers_def f0_def)
    then have "map_of m1 l = map_of m0 l"
      unfolding m1_def by (subst map_of_addLinesP) auto
    then show ?thesis
      using False by (simp add: v0 candidates_snoc)
  qed
  have other: "candidates (blocks @ [b]) f l = candidates blocks f l" if "f \<noteq> f0" for f l
    using that by (simp add: candidates_snoc covers_def f0_def)
  have "distinct (map fst (AList.update f0 m1 fm))"
    using inv by (simp add: fileMap_inv_def distinct_update)
  moreover have "fst ` set (AList.update f0 m1 fm) = fileSet (blocks @ [b])"
    using inv False by (simp add: fileMap_inv_def dom_update fileSet_snoc f0_def)
  moreover have "distinct (map fst m) \<and>
         (\<forall>l. map_of m l =
            (if candidates (blocks @ [b]) f l = {} then None else Some (Min (candidates (blocks @ [b]) f l))))"
    if "map_of (AList.update f0 m1 fm) f = Some m" for f m
  proof (cases "f = f0")
    case True
    with that have "m = m1" by (simp add: update_conv')
    then show ?thesis using d1 v1 True by simp
  next
    case False
    with that have "map_of fm f = Some m" by (simp add: update_conv')
    then show ?thesis using inv other[OF False] by (simp add: fileMap_inv_def)
  qed
  ultimately show ?thesis
    unfolding fm' fileMap_inv_def by blast
qed

lemma fileMap_inv_fold: "fileMap_inv blocks (fold processBlockP blocks [])"
proof (induction blocks rule: rev_induct)
  case Nil
  show ?case by (simp add: fileMap_inv_Nil)
next
  case (snoc b blocks)
  then show ?case by (simp add: fileMap_inv_step)
qed

lemma map_sort_key: "map k (sort_key k zs) = sort (map k zs)"
  by (rule properties_for_sort[symmetric]) simp_all

lemma sort_distinct: "distinct xs \<Longrightarrow> sort xs = sorted_list_of_set (set xs)"
  by (simp add: sorted_list_of_set_sort_remdups distinct_remdups_id)

lemma sort_key_canonical:
  fixes k :: "'b \<Rightarrow> 'k::linorder" and xs :: "('k \<times> 'v) list"
  assumes d: "distinct (map fst xs)"
    and h1: "\<And>x. x \<in> set xs \<Longrightarrow> k (h x) = fst x"
    and h2: "\<And>x. x \<in> set xs \<Longrightarrow> h x = h' (fst x)"
  shows "sort_key k (map h xs) = map h' (sorted_list_of_set (fst ` set xs))"
proof -
  let ?ys = "sort_key k (map h xs)"
  have "map (k \<circ> h) xs = map fst xs"
    by (rule map_cong) (simp_all add: h1)
  then have kh: "map k (map h xs) = map fst xs"
    by simp
  have keys: "map k ?ys = sorted_list_of_set (fst ` set xs)"
    using d by (simp add: map_sort_key kh sort_distinct del: map_map)
  have "map (h' \<circ> k) ?ys = ?ys"
  proof (rule map_idI)
    fix y assume "y \<in> set ?ys"
    then obtain x where x: "x \<in> set xs" "y = h x" by auto
    show "(h' \<circ> k) y = y" using h1[OF x(1)] h2[OF x(1)] x(2) by simp
  qed
  then have "map h' (map k ?ys) = ?ys" by simp
  then show ?thesis using keys by simp
qed

text \<open>A list with distinct keys has one sorted permutation: any sorting algorithm gives the
  result of \<open>sort_key\<close>, from any order of the entries.\<close>

lemma filter_key_singleton:
  "distinct (map k zs) \<Longrightarrow> z \<in> set zs \<Longrightarrow> filter (\<lambda>x. k z = k x) zs = [z]"
proof (induction zs)
  case Nil
  then show ?case by simp
next
  case (Cons a zs)
  show ?case
  proof (cases "z = a")
    case True
    have "filter (\<lambda>x. k a = k x) zs = []"
      using Cons.prems(1) by (auto simp: filter_empty_conv)
    with True show ?thesis by simp
  next
    case False
    then have zin: "z \<in> set zs" using Cons.prems(2) by simp
    with Cons have f: "filter (\<lambda>x. k z = k x) zs = [z]" by simp
    from zin have "k z \<in> k ` set zs" by (rule imageI)
    then have "k z \<noteq> k a"
      using Cons.prems(1) by auto
    with f show ?thesis by simp
  qed
qed

lemma sorted_permutation_unique:
  assumes "mset ys = mset xs" "sorted (map k ys)" "distinct (map k xs)"
  shows "ys = sort_key k xs"
proof -
  have d: "distinct (map k ys)"
    using assms(1,3) by (metis distinct_map mset_eq_setD mset_eq_imp_distinct_iff mset_map)
  have "sort_key k xs = ys"
  proof (rule properties_for_sort_key[OF assms(1) _ assms(2)])
    fix z assume z: "z \<in> set ys"
    then have "z \<in> set xs" using assms(1) by (metis mset_eq_setD)
    then show "filter (\<lambda>x. k z = k x) ys = filter (\<lambda>x. k z = k x) xs"
      using z d assms(3) by (simp add: filter_key_singleton)
  qed
  then show ?thesis by simp
qed

lemma lineSet_candidates: "lineSet blocks f = {l. candidates blocks f l \<noteq> {}}"
  by (auto simp: lineSet_def candidates_def)

lemma toLines_canonical:
  assumes d: "distinct (map fst m)"
    and v: "\<And>l. map_of m l =
            (if candidates blocks f l = {} then None else Some (Min (candidates blocks f l)))"
  shows "toLines m = map (\<lambda>l. \<lparr>Line = l, Col = minCol blocks f l\<rparr>) (sorted_list_of_set (lineSet blocks f))"
proof -
  have dom: "fst ` set m = lineSet blocks f"
    using v by (auto simp: lineSet_candidates dom_map_of_conv_image_fst[symmetric] dom_def)
  have "toLines m = map (\<lambda>l. \<lparr>Line = l, Col = minCol blocks f l\<rparr>) (sorted_list_of_set (fst ` set m))"
    unfolding toLines_def
  proof (rule sort_key_canonical[OF d])
    fix x assume x: "x \<in> set m"
    show "Line (case x of (line, col) \<Rightarrow> \<lparr>Line = line, Col = col\<rparr>) = fst x"
      by (cases x) simp
    obtain l c where lc: "x = (l, c)" by (cases x)
    with x d have "map_of m l = Some c" by simp
    with v[of l] have "c = minCol blocks f l"
      by (simp add: minCol_def split: if_splits)
    then show "(case x of (line, col) \<Rightarrow> \<lparr>Line = line, Col = col\<rparr>) = \<lparr>Line = fst x, Col = minCol blocks f (fst x)\<rparr>"
      by (simp add: lc)
  qed
  then show ?thesis by (simp add: dom)
qed

lemma toResult_canonical:
  assumes inv: "fileMap_inv blocks fm"
  shows "toResult fm = uncovered_canonical blocks"
proof -
  have d: "distinct (map fst fm)" and dom: "fst ` set fm = fileSet blocks"
    using inv by (simp_all add: fileMap_inv_def)
  have "toResult fm =
     map (\<lambda>f. \<lparr>FileNameU = f,
               Lines = map (\<lambda>l. \<lparr>Line = l, Col = minCol blocks f l\<rparr>)
                         (sorted_list_of_set (lineSet blocks f))\<rparr>)
         (sorted_list_of_set (fst ` set fm))"
    unfolding toResult_def
  proof (rule sort_key_canonical[OF d])
    fix x assume x: "x \<in> set fm"
    show "FileNameU (case x of (fileName, m) \<Rightarrow> \<lparr>FileNameU = fileName, Lines = toLines m\<rparr>) = fst x"
      by (cases x) simp
    obtain f m where fm: "x = (f, m)" by (cases x)
    with x d have "map_of fm f = Some m" by simp
    with inv have "distinct (map fst m)"
      and "\<And>l. map_of m l = (if candidates blocks f l = {} then None else Some (Min (candidates blocks f l)))"
      by (simp_all add: fileMap_inv_def)
    then have "toLines m = map (\<lambda>l. \<lparr>Line = l, Col = minCol blocks f l\<rparr>) (sorted_list_of_set (lineSet blocks f))"
      by (rule toLines_canonical)
    then show "(case x of (fileName, m) \<Rightarrow> \<lparr>FileNameU = fileName, Lines = toLines m\<rparr>) =
       \<lparr>FileNameU = fst x,
          Lines = map (\<lambda>l. \<lparr>Line = l, Col = minCol blocks (fst x) l\<rparr>)
                    (sorted_list_of_set (lineSet blocks (fst x)))\<rparr>"
      by (simp add: fm)
  qed
  then show ?thesis by (simp add: dom uncovered_canonical_def)
qed

lemma GetUncoveredLines_canonical:
  assumes "\<forall>b\<in>set (Blocks profile). block_ok b"
  shows "GetUncoveredLines profile = Some (uncovered_canonical (Blocks profile))"
  using assms
  by (simp add: GetUncoveredLines_def processBlocks_terminates toResult_canonical fileMap_inv_fold)

lemma wrap64_range: "in_int64 (wrap64 x)"
  by (simp add: in_int64_def wrap64_def minInt_def maxInt_def)

lemma addLines_diverges_aux:
  assumes "addLines block line m = Some y"
  shows "\<not> (EndLine block = maxInt \<and> line \<le> maxInt)"
proof (rule addLines.raw_induct[where P = "\<lambda>b l m y. \<not> (EndLine b = maxInt \<and> l \<le> maxInt)", OF _ assms])
  fix f b l m' y'
  assume IH: "\<And>b l m y. f b l m = Some y \<Longrightarrow> \<not> (EndLine b = maxInt \<and> l \<le> maxInt)"
    and body: "(if l \<le> EndLine b then f b (wrap64 (l + 1)) (storeLine m' l (candidateCol b l)) else Some m') = Some y'"
  show "\<not> (EndLine b = maxInt \<and> l \<le> maxInt)"
  proof
    assume a: "EndLine b = maxInt \<and> l \<le> maxInt"
    then have "f b (wrap64 (l + 1)) (storeLine m' l (candidateCol b l)) = Some y'"
      using body by simp
    from IH[OF this] a wrap64_range[of "l + 1"] show False
      by (simp add: in_int64_def)
  qed
qed

lemma addLines_diverges:
  "EndLine block = maxInt \<Longrightarrow> line \<le> maxInt \<Longrightarrow> addLines block line m = None"
  using addLines_diverges_aux[of block line m] by (cases "addLines block line m") auto

lemma processBlock_diverges:
  assumes "int64_block block" "loops_forever block"
  shows "processBlock block fm = None"
proof -
  from assms have "StartLine block \<le> maxInt" "EndLine block = maxInt" "\<not> IsCovered block"
    by (simp_all add: int64_block_def loops_forever_def in_int64_def)
  then show ?thesis
    by (simp add: processBlock_def addLines_diverges Let_def)
qed

lemma processBlocks_None_iff:
  "\<forall>b\<in>set blocks. int64_block b \<Longrightarrow>
   processBlocks blocks fm = None \<longleftrightarrow> (\<exists>b\<in>set blocks. loops_forever b)"
proof (induction blocks arbitrary: fm)
  case Nil
  then show ?case by simp
next
  case (Cons b blocks)
  show ?case
  proof (cases "loops_forever b")
    case True
    with Cons.prems show ?thesis by (simp add: processBlock_diverges)
  next
    case False
    with Cons.prems have "block_ok b" by (simp add: block_ok_def)
    then have "processBlock b fm = Some (processBlockP b fm)"
      by (rule processBlock_terminates)
    with Cons False show ?thesis by simp
  qed
qed

lemma profile_ok_blocks: "profile_ok profile \<Longrightarrow> \<forall>b\<in>set (Blocks profile). block_ok b"
  by (simp add: profile_ok_def list_all_iff)

lemma GetUncoveredLines_returns:
  "profile_ok profile \<Longrightarrow> GetUncoveredLines profile = Some (uncovered_canonical (Blocks profile))"
  by (simp add: GetUncoveredLines_canonical profile_ok_blocks)

lemma GetUncoveredLines_None_iff:
  assumes "\<forall>b\<in>set (Blocks profile). int64_block b"
  shows "GetUncoveredLines profile = None \<longleftrightarrow> (\<exists>b\<in>set (Blocks profile). loops_forever b)"
  using processBlocks_None_iff[OF assms, of "[]"]
  by (cases "processBlocks (Blocks profile) []") (auto simp: GetUncoveredLines_def)

lemma finite_fileSet: "finite (fileSet blocks)"
  by (simp add: fileSet_def)

lemma lineSet_Union:
  "lineSet blocks f = (\<Union>b\<in>{b \<in> set blocks. \<not> IsCovered b \<and> FileName b = f}. {StartLine b..EndLine b})"
  by (auto simp: lineSet_def covers_def)

lemma finite_lineSet: "finite (lineSet blocks f)"
  by (simp add: lineSet_Union)

lemma candidates_eq:
  "candidates blocks f l =
     {candidateCol b l | b. b \<in> set blocks \<and> \<not> IsCovered b \<and> FileName b = f \<and>
                            StartLine b \<le> l \<and> l \<le> EndLine b}"
  by (auto simp: candidates_def covers_def)

lemma set_uncovered_canonical_names:
  "FileNameU ` set (uncovered_canonical blocks) = fileSet blocks"
  by (simp add: uncovered_canonical_def image_image finite_fileSet)

lemma uncovered_canonical_entry:
  assumes "fu \<in> set (uncovered_canonical blocks)"
  shows "Lines fu = map (\<lambda>l. \<lparr>Line = l, Col = minCol blocks (FileNameU fu) l\<rparr>)
                      (sorted_list_of_set (lineSet blocks (FileNameU fu)))"
  using assms by (auto simp: uncovered_canonical_def)

lemma uncovered_canonical_lines:
  assumes "fu \<in> set (uncovered_canonical blocks)"
  shows "map Line (Lines fu) = sorted_list_of_set (lineSet blocks (FileNameU fu))"
  by (simp add: uncovered_canonical_entry[OF assms] comp_def)

lemma uncovered_canonical_names:
  "map FileNameU (uncovered_canonical blocks) = sorted_list_of_set (fileSet blocks)"
  by (simp add: uncovered_canonical_def comp_def)

lemma uncovered_canonical_cong:
  assumes "set blocks = set blocks'"
  shows "uncovered_canonical blocks = uncovered_canonical blocks'"
proof -
  have "candidates blocks = candidates blocks'" "fileSet blocks = fileSet blocks'"
    "lineSet blocks = lineSet blocks'"
    using assms by (simp_all add: candidates_def fileSet_def lineSet_def fun_eq_iff)
  then show ?thesis by (simp add: uncovered_canonical_def minCol_def)
qed

lemma block_ok_blockAt:
  "block_ok (blockAt f s c e) \<longleftrightarrow> in_int64 s \<and> in_int64 c \<and> in_int64 e \<and> e \<noteq> maxInt"
  by (auto simp: block_ok_def int64_block_def loops_forever_def blockAt_def IsCovered_def in_int64_def minInt_def maxInt_def)

lemma in_int64_small: "- 1000000 \<le> x \<Longrightarrow> x \<le> 1000000 \<Longrightarrow> in_int64 x"
  by (simp add: in_int64_def minInt_def maxInt_def)

text \<open>The merge of source lines 49 to 51 keeps the minimum, so the order of two stores does
  not matter.\<close>

lemma storeLine_commute:
  "map_of (storeLine (storeLine m l c) l' c') = map_of (storeLine (storeLine m l' c') l c)"
  by (auto simp: map_of_storeLine fun_eq_iff min.commute min.left_commute split: option.splits)

lemma candidates_nonempty:
  assumes "fu \<in> set (uncovered_canonical blocks)" "ul \<in> set (Lines fu)"
  shows "candidates blocks (FileNameU fu) (Line ul) \<noteq> {}"
proof -
  have "Line ul \<in> set (map Line (Lines fu))" using assms(2) by simp
  then have "Line ul \<in> lineSet blocks (FileNameU fu)"
    by (simp add: uncovered_canonical_lines[OF assms(1)] finite_lineSet)
  then show ?thesis by (simp add: lineSet_candidates)
qed

lemma GetUncoveredLines_sorted:
  assumes "profile_ok profile"
  shows "\<exists>result. GetUncoveredLines profile = Some result \<and>
           sorted (map FileNameU result) \<and> distinct (map FileNameU result) \<and>
           set (map FileNameU result) = FileName ` {b \<in> set (Blocks profile). \<not> IsCovered b} \<and>
           (\<forall>fu\<in>set result. sorted (map Line (Lines fu)) \<and> distinct (map Line (Lines fu)))"
proof -
  let ?r = "uncovered_canonical (Blocks profile)"
  have "sorted (map FileNameU ?r)" "distinct (map FileNameU ?r)"
    "set (map FileNameU ?r) = fileSet (Blocks profile)"
    by (simp_all add: uncovered_canonical_names finite_fileSet)
  moreover have "sorted (map Line (Lines fu)) \<and> distinct (map Line (Lines fu))"
    if "fu \<in> set ?r" for fu
    by (simp add: uncovered_canonical_lines[OF that])
  ultimately show ?thesis
    by (simp add: GetUncoveredLines_returns[OF assms] fileSet_def)
qed

section \<open>Claims about the extraction\<close>

text \<open>
  Claim C1 (completeness of the extraction). On a profile on which the extraction returns,
  for every block with execution count 0 and every line \<open>l\<close> from its start line to its end
  line, the result has an entry for the file of the block, and the lines of every entry
  for that file contain \<open>l\<close>.
\<close>

theorem GetUncoveredLines_complete:
  assumes ok: "profile_ok profile"
    and b: "block \<in> set (Blocks profile)"
    and unc: "ExecutionCount block = 0"
    and l: "StartLine block \<le> l" "l \<le> EndLine block"
  shows "\<exists>result. GetUncoveredLines profile = Some result \<and>
           (\<exists>fu\<in>set result. FileNameU fu = FileName block) \<and>
           (\<forall>fu\<in>set result. FileNameU fu = FileName block \<longrightarrow> l \<in> Line ` set (Lines fu))"
proof -
  let ?bs = "Blocks profile"
  have nc: "\<not> IsCovered block" using unc by (simp add: IsCovered_def)
  have "FileName block \<in> fileSet ?bs"
    using b nc by (auto simp: fileSet_def)
  then have ex: "\<exists>fu\<in>set (uncovered_canonical ?bs). FileNameU fu = FileName block"
    unfolding set_uncovered_canonical_names[symmetric] by auto
  have "l \<in> Line ` set (Lines fu)"
    if fu: "fu \<in> set (uncovered_canonical ?bs)" and n: "FileNameU fu = FileName block" for fu
  proof -
    have "l \<in> lineSet ?bs (FileNameU fu)"
      using b nc l n by (auto simp: lineSet_def covers_def)
    then have "l \<in> set (map Line (Lines fu))"
      by (simp add: uncovered_canonical_lines[OF fu] finite_lineSet)
    then show ?thesis by simp
  qed
  with ex show ?thesis
    by (simp add: GetUncoveredLines_returns[OF ok])
qed

theorem GetUncoveredLines_complete_witness:
  "profile_ok \<lparr>Blocks = [blockAt ''a.go'' 24 1 28]\<rparr> \<and>
   (\<exists>result. GetUncoveredLines \<lparr>Blocks = [blockAt ''a.go'' 24 1 28]\<rparr> = Some result \<and>
      (\<exists>fu\<in>set result. FileNameU fu = ''a.go'') \<and>
      (\<forall>fu\<in>set result. FileNameU fu = ''a.go'' \<longrightarrow> 26 \<in> Line ` set (Lines fu)))"
proof -
  have ok: "profile_ok \<lparr>Blocks = [blockAt ''a.go'' 24 1 28]\<rparr>"
    by (simp add: profile_ok_def block_ok_blockAt in_int64_small maxInt_def)
  show ?thesis
    using ok GetUncoveredLines_complete[OF ok, of "blockAt ''a.go'' 24 1 28" 26]
    by (simp add: blockAt_def)
qed

text \<open>
  Claim C5 (column precedence). On a profile on which the extraction returns, every line of
  the result is held by an uncovered block of its file, and the column recorded for it is
  the minimum of the candidate columns of that line over the uncovered blocks of the file
  whose span holds the line: the start column of the block on its start line, 0 on its
  later lines. The witness has two uncovered blocks that hold
  line 3 with the candidates 5 and 0; the recorded column is 0.
\<close>

theorem GetUncoveredLines_min_column:
  assumes ok: "profile_ok profile"
  shows "\<exists>result. GetUncoveredLines profile = Some result \<and>
           (\<forall>fu\<in>set result. \<forall>ul\<in>set (Lines fu).
              (\<exists>b\<in>set (Blocks profile). \<not> IsCovered b \<and> FileName b = FileNameU fu \<and>
                  StartLine b \<le> Line ul \<and> Line ul \<le> EndLine b) \<and>
              Col ul = Min {candidateCol b (Line ul) | b.
                              b \<in> set (Blocks profile) \<and> \<not> IsCovered b \<and>
                              FileName b = FileNameU fu \<and>
                              StartLine b \<le> Line ul \<and> Line ul \<le> EndLine b})"
proof -
  let ?bs = "Blocks profile"
  have col: "Col ul = Min (candidates ?bs (FileNameU fu) (Line ul))"
    if fu: "fu \<in> set (uncovered_canonical ?bs)" and ul: "ul \<in> set (Lines fu)" for fu ul
    using ul unfolding uncovered_canonical_entry[OF fu] by (auto simp: minCol_def)
  have ex: "\<exists>b\<in>set ?bs. \<not> IsCovered b \<and> FileName b = FileNameU fu \<and>
                  StartLine b \<le> Line ul \<and> Line ul \<le> EndLine b"
    if fu: "fu \<in> set (uncovered_canonical ?bs)" and ul: "ul \<in> set (Lines fu)" for fu ul
    using candidates_nonempty[OF fu ul] by (auto simp: candidates_def covers_def)
  show ?thesis
    using col ex by (simp add: GetUncoveredLines_returns[OF ok] candidates_eq)
qed

theorem GetUncoveredLines_min_column_witness:
  "profile_ok \<lparr>Blocks = [blockAt ''a.go'' 3 5 3, blockAt ''a.go'' 2 1 4]\<rparr> \<and>
   GetUncoveredLines \<lparr>Blocks = [blockAt ''a.go'' 3 5 3, blockAt ''a.go'' 2 1 4]\<rparr> =
     Some [\<lparr>FileNameU = ''a.go'',
            Lines = [\<lparr>Line = 2, Col = 1\<rparr>, \<lparr>Line = 3, Col = 0\<rparr>, \<lparr>Line = 4, Col = 0\<rparr>]\<rparr>] \<and>
   (\<exists>result. GetUncoveredLines \<lparr>Blocks = [blockAt ''a.go'' 3 5 3, blockAt ''a.go'' 2 1 4]\<rparr> = Some result \<and>
           (\<forall>fu\<in>set result. \<forall>ul\<in>set (Lines fu).
              (\<exists>b\<in>set (Blocks \<lparr>Blocks = [blockAt ''a.go'' 3 5 3, blockAt ''a.go'' 2 1 4]\<rparr>).
                  \<not> IsCovered b \<and> FileName b = FileNameU fu \<and>
                  StartLine b \<le> Line ul \<and> Line ul \<le> EndLine b) \<and>
              Col ul = Min {candidateCol b (Line ul) | b.
                              b \<in> set (Blocks \<lparr>Blocks = [blockAt ''a.go'' 3 5 3, blockAt ''a.go'' 2 1 4]\<rparr>) \<and> \<not> IsCovered b \<and>
                              FileName b = FileNameU fu \<and>
                              StartLine b \<le> Line ul \<and> Line ul \<le> EndLine b}))"
proof -
  have ok: "profile_ok \<lparr>Blocks = [blockAt ''a.go'' 3 5 3, blockAt ''a.go'' 2 1 4]\<rparr>"
    by (simp add: profile_ok_def block_ok_blockAt in_int64_small maxInt_def)
  have ev: "GetUncoveredLines \<lparr>Blocks = [blockAt ''a.go'' 3 5 3, blockAt ''a.go'' 2 1 4]\<rparr> =
     Some [\<lparr>FileNameU = ''a.go'',
            Lines = [\<lparr>Line = 2, Col = 1\<rparr>, \<lparr>Line = 3, Col = 0\<rparr>, \<lparr>Line = 4, Col = 0\<rparr>]\<rparr>]"
    by (simp add: GetUncoveredLines_def processBlock_def IsCovered_def blockAt_def addLines.simps
        toResult_def toLines_def storeLine_def candidateCol_def wrap64_def)
  show ?thesis
    by (rule conjI[OF ok conjI[OF ev GetUncoveredLines_min_column[OF ok]]])
qed

text \<open>
  Claim C9 (permutation invariance). For a profile of Go values, the extraction on any
  permutation of the blocks gives the same result: the same files in the same order with
  the same lines and columns, or no result for both when the inner loop does not return.
\<close>

theorem GetUncoveredLines_permutation:
  assumes typed: "list_all int64_block (Blocks profile)"
    and perm: "mset (Blocks profile') = mset (Blocks profile)"
  shows "GetUncoveredLines profile' = GetUncoveredLines profile"
proof -
  have s: "set (Blocks profile') = set (Blocks profile)"
    using perm by (rule mset_eq_setD)
  have t: "\<forall>b\<in>set (Blocks profile). int64_block b"
    using typed by (simp add: list_all_iff)
  then have t': "\<forall>b\<in>set (Blocks profile'). int64_block b"
    using s by simp
  show ?thesis
  proof (cases "\<exists>b\<in>set (Blocks profile). loops_forever b")
    case True
    then show ?thesis
      using GetUncoveredLines_None_iff[OF t] GetUncoveredLines_None_iff[OF t'] s by simp
  next
    case False
    then have "profile_ok profile" "profile_ok profile'"
      using t t' s by (simp_all add: profile_ok_def list_all_iff block_ok_def)
    then show ?thesis
      by (simp add: GetUncoveredLines_returns uncovered_canonical_cong[OF s])
  qed
qed

theorem GetUncoveredLines_permutation_witness:
  "list_all int64_block (Blocks \<lparr>Blocks = [blockAt ''a.go'' 3 5 3, blockAt ''a.go'' 2 1 4]\<rparr>) \<and>
   mset (Blocks \<lparr>Blocks = [blockAt ''a.go'' 2 1 4, blockAt ''a.go'' 3 5 3]\<rparr>) =
   mset (Blocks \<lparr>Blocks = [blockAt ''a.go'' 3 5 3, blockAt ''a.go'' 2 1 4]\<rparr>) \<and>
   GetUncoveredLines \<lparr>Blocks = [blockAt ''a.go'' 2 1 4, blockAt ''a.go'' 3 5 3]\<rparr> =
   GetUncoveredLines \<lparr>Blocks = [blockAt ''a.go'' 3 5 3, blockAt ''a.go'' 2 1 4]\<rparr>"
proof -
  have t: "list_all int64_block (Blocks \<lparr>Blocks = [blockAt ''a.go'' 3 5 3, blockAt ''a.go'' 2 1 4]\<rparr>)"
    by (simp add: int64_block_def blockAt_def in_int64_small)
  have p: "mset (Blocks \<lparr>Blocks = [blockAt ''a.go'' 2 1 4, blockAt ''a.go'' 3 5 3]\<rparr>) =
   mset (Blocks \<lparr>Blocks = [blockAt ''a.go'' 3 5 3, blockAt ''a.go'' 2 1 4]\<rparr>)"
    by (simp add: add_mset_commute)
  show ?thesis
    by (rule conjI[OF t conjI[OF p GetUncoveredLines_permutation[OF t p]]])
qed

text \<open>
  Claim C2 (the contract of the extraction). The result is sorted by file name and the
  lines of a file are ascending and distinct (lemma \<open>GetUncoveredLines_sorted\<close>), but the
  result has an entry for every file that has an uncovered block, not for every file that
  has an uncovered line: the map of the file is created (source lines 38 to 40) before the
  lines of the block are visited. A file whose only uncovered block ends before it starts
  has no uncovered line and is in the result, with no lines.
\<close>

theorem GetUncoveredLines_inverted_range:
  "GetUncoveredLines \<lparr>Blocks = [blockAt ''a.go'' 5 1 3]\<rparr> =
     Some [\<lparr>FileNameU = ''a.go'', Lines = []\<rparr>]"
  by (simp add: GetUncoveredLines_def processBlock_def IsCovered_def blockAt_def addLines.simps
      toResult_def toLines_def)

section \<open>Properties of the grouping\<close>

lemma runs_Cons_shape: "\<exists>r rs. runs (y # zs) = (y # r) # rs"
  by (induction zs arbitrary: y) (auto split: list.splits)

lemma groupLoop_runs:
  assumes "lines cur \<noteq> []" "end' cur = Line (last (lines cur))"
  shows "groupLoop rest cur groups =
           groups @ (case runs (last (lines cur) # rest) of
                       [] \<Rightarrow> []
                     | r # rs \<Rightarrow> cur\<lparr>end' := Line (last r), lines := butlast (lines cur) @ r\<rparr> # map groupOf rs)"
  using assms
proof (induction rest arbitrary: cur groups)
  case Nil
  then show ?case by simp
next
  case (Cons y zs)
  obtain r rs where rr: "runs (y # zs) = (y # r) # rs"
    using runs_Cons_shape by blast
  let ?c = "last (lines cur)"
  show ?case
  proof (cases "close_to ?c y")
    case True
    let ?cur' = "cur\<lparr>end' := Line y, lines := lines cur @ [y]\<rparr>"
    have "groupLoop (y # zs) cur groups = groupLoop zs ?cur' groups"
      using True Cons.prems by (simp add: close_to_def)
    also have "\<dots> = groups @ (case runs (last (lines ?cur') # zs) of
                       [] \<Rightarrow> []
                     | r # rs \<Rightarrow> ?cur'\<lparr>end' := Line (last r), lines := butlast (lines ?cur') @ r\<rparr> # map groupOf rs)"
      by (rule Cons.IH) simp_all
    finally show ?thesis
      using True Cons.prems(1) by (simp add: rr)
  next
    case False
    let ?new = "\<lparr>start = Line y, end' = Line y, lines = [y]\<rparr>"
    have "groupLoop (y # zs) cur groups = groupLoop zs ?new (groups @ [cur])"
      using False Cons.prems by (simp add: close_to_def)
    also have "\<dots> = (groups @ [cur]) @ (case runs (last (lines ?new) # zs) of
                       [] \<Rightarrow> []
                     | r # rs \<Rightarrow> ?new\<lparr>end' := Line (last r), lines := butlast (lines ?new) @ r\<rparr> # map groupOf rs)"
      by (rule Cons.IH) simp_all
    finally show ?thesis
      using False Cons.prems by (simp add: rr groupOf_def)
  qed
qed

lemma groupLines_runs: "groupLines ls = map groupOf (runs ls)"
proof (cases ls)
  case Nil
  then show ?thesis by (simp add: groupLines_def)
next
  case (Cons l rest)
  obtain r rs where rr: "runs (l # rest) = (l # r) # rs"
    using runs_Cons_shape by blast
  show ?thesis
    using Cons by (simp add: groupLines_def groupLoop_runs rr groupOf_def)
qed

lemma concat_runs: "concat (runs ls) = ls"
  by (induction ls rule: runs.induct) (auto split: list.splits)

lemma runs_nonempty: "r \<in> set (runs ls) \<Longrightarrow> r \<noteq> []"
  by (induction ls arbitrary: r rule: runs.induct) (auto split: list.splits if_splits)

lemma runs_close: "r \<in> set (runs ls) \<Longrightarrow> successively close_to r"
proof (induction ls arbitrary: r rule: runs.induct)
  case (3 x y zs)
  obtain r' rs where rr: "runs (y # zs) = (y # r') # rs"
    using runs_Cons_shape by blast
  show ?case
  proof (cases "close_to x y")
    case True
    with 3 rr show ?thesis by auto
  next
    case False
    with 3 show ?thesis by auto
  qed
qed simp_all

lemma runs_gap: "successively (\<lambda>r s. \<not> close_to (last r) (hd s)) (runs ls)"
proof (induction ls rule: runs.induct)
  case (3 x y zs)
  obtain r' rs where rr: "runs (y # zs) = (y # r') # rs"
    using runs_Cons_shape by blast
  show ?case
  proof (cases "close_to x y")
    case True
    with 3 rr show ?thesis by (cases rs) auto
  next
    case False
    with 3 rr show ?thesis by auto
  qed
qed simp_all

lemma close_to_iff:
  "in_int64 (Line x + 2 * contextLines + 1) \<Longrightarrow>
   close_to x y \<longleftrightarrow> Line y \<le> Line x + 2 * contextLines + 1"
  by (simp add: close_to_def wrap64_id)

lemma runs_subset: "r \<in> set (runs ls) \<Longrightarrow> set r \<subseteq> set ls"
  using concat_runs[of ls] by (metis Sup_upper image_eqI set_concat)

lemma ascending_distinct: "ascending ls \<Longrightarrow> distinct ls"
  unfolding ascending_def by (induction ls) auto

lemma runs_same_run:
  assumes "distinct ls" "ls = us @ x # y # vs"
  shows "(\<exists>r\<in>set (runs ls). x \<in> set r \<and> y \<in> set r) \<longleftrightarrow> close_to x y"
  using assms
proof (induction us arbitrary: ls)
  case Nil
  obtain r' rs where rr: "runs (y # vs) = (y # r') # rs"
    using runs_Cons_shape by blast
  show ?case
  proof (cases "close_to x y")
    case True
    then show ?thesis using Nil by (simp add: rr)
  next
    case False
    have "\<not> (x \<in> set r \<and> y \<in> set r)" if "r \<in> set (runs (y # vs))" for r
      using runs_subset[OF that] Nil by auto
    then show ?thesis using False Nil by auto
  qed
next
  case (Cons a us)
  let ?tail = "us @ x # y # vs"
  obtain b zs where t: "?tail = b # zs" by (cases ?tail) auto
  obtain r' rs where rr: "runs (b # zs) = (b # r') # rs"
    using runs_Cons_shape by blast
  have d: "distinct ?tail" and a: "a \<noteq> x" "a \<noteq> y"
    using Cons.prems by auto
  have IH: "(\<exists>r\<in>set (runs ?tail). x \<in> set r \<and> y \<in> set r) \<longleftrightarrow> close_to x y"
    using d by (intro Cons.IH) simp_all
  have ls: "ls = a # b # zs" using Cons.prems t by simp
  show ?case
  proof (cases "close_to a b")
    case True
    then have "runs ls = (a # b # r') # rs" by (simp add: ls rr)
    then show ?thesis using IH a by (simp add: t rr)
  next
    case False
    then have "runs ls = [a] # runs (b # zs)" by (simp add: ls)
    then show ?thesis using IH a by (simp add: t) 
  qed
qed

lemma ascending_append: "ascending (xs @ ys) \<Longrightarrow> ascending xs \<and> ascending ys"
  by (simp add: ascending_def sorted_wrt_append)

lemma runs_ascending:
  assumes "ascending ls" "r \<in> set (runs ls)"
  shows "ascending r"
proof -
  from assms(2) obtain A B where "runs ls = A @ r # B"
    by (auto dest: split_list)
  then have "ls = concat A @ r @ concat B"
    using concat_runs[of ls] by simp
  with assms(1) show ?thesis
    by (metis ascending_append)
qed

lemma ascending_hd_last: "ascending r \<Longrightarrow> r \<noteq> [] \<Longrightarrow> Line (hd r) \<le> Line (last r)"
  unfolding ascending_def by (cases r) (auto simp: less_imp_le)

lemma runs_far:
  assumes "ascending ls" "mergeable ls"
  shows "sorted_wrt (\<lambda>r s. Line (last r) + 2 * contextLines + 1 < Line (hd s)) (runs ls)"
  using assms
proof (induction ls rule: runs.induct)
  case (3 x y zs)
  obtain r' rs where rr: "runs (y # zs) = (y # r') # rs"
    using runs_Cons_shape by blast
  have asc: "ascending (y # zs)" and mrg: "mergeable (y # zs)"
    using 3(3,4) by (simp_all add: ascending_def mergeable_def)
  show ?case
  proof (cases "close_to x y")
    case True
    have "sorted_wrt (\<lambda>r s. Line (last r) + 2 * contextLines + 1 < Line (hd s)) (runs (y # zs))"
      using 3(1)[OF True asc mrg] .
    then show ?thesis using True by (simp add: rr)
  next
    case False
    have IH: "sorted_wrt (\<lambda>r s. Line (last r) + 2 * contextLines + 1 < Line (hd s)) (runs (y # zs))"
      using 3(2)[OF False asc mrg] .
    have far: "Line x + 2 * contextLines + 1 < Line y"
      using False 3(4) by (simp add: close_to_iff mergeable_def)
    have "Line x + 2 * contextLines + 1 < Line (hd s)" if s: "s \<in> set (runs (y # zs))" for s
    proof -
      have "s \<noteq> []" using s by (rule runs_nonempty)
      then have "hd s \<in> set (y # zs)" using runs_subset[OF s] by (cases s) auto
      then have "Line y \<le> Line (hd s)"
        using asc by (auto simp: ascending_def less_imp_le)
      with far show ?thesis by simp
    qed
    with IH False show ?thesis by simp
  qed
qed simp_all

lemma lines_groupOf: "lines (groupOf r) = r" "start (groupOf r) = Line (hd r)" "end' (groupOf r) = Line (last r)"
  by (simp_all add: groupOf_def)

lemma groupOf_lines: "g \<in> set (groupLines ls) \<Longrightarrow> g = groupOf (lines g)"
  by (auto simp: groupLines_runs groupOf_def)

section \<open>Claims about the grouping\<close>

text \<open>
  Claim C3 (grouping threshold). In an ascending list of lines, a line \<open>y\<close> that follows a
  line \<open>x\<close> is in the group of \<open>x\<close> if and only if its number is at most the number of
  \<open>x\<close>, the end of the current group, plus \<open>2 * contextLines + 1 = 7\<close>. The witness has the
  lines 1, 8 and 16: distance 7 merges, distance 8 splits.
\<close>

theorem groupLines_threshold:
  assumes "ascending ls" "mergeable ls" "ls = us @ x # y # vs"
  shows "(\<exists>g\<in>set (groupLines ls). x \<in> set (lines g) \<and> y \<in> set (lines g)) \<longleftrightarrow>
         Line y \<le> Line x + 2 * contextLines + 1"
proof -
  have "in_int64 (Line x + 2 * contextLines + 1)"
    using assms(2,3) by (simp add: mergeable_def)
  then have "close_to x y \<longleftrightarrow> Line y \<le> Line x + 2 * contextLines + 1"
    by (rule close_to_iff)
  moreover have "(\<exists>g\<in>set (groupLines ls). x \<in> set (lines g) \<and> y \<in> set (lines g)) \<longleftrightarrow>
      (\<exists>r\<in>set (runs ls). x \<in> set r \<and> y \<in> set r)"
    by (simp add: groupLines_runs groupOf_def)
  ultimately show ?thesis
    using runs_same_run[OF ascending_distinct[OF assms(1)] assms(3)] by simp
qed

theorem groupLines_threshold_witness:
  "ascending [lineAt 1, lineAt 8, lineAt 16] \<and> mergeable [lineAt 1, lineAt 8, lineAt 16] \<and>
   (\<exists>g\<in>set (groupLines [lineAt 1, lineAt 8, lineAt 16]). lineAt 1 \<in> set (lines g) \<and> lineAt 8 \<in> set (lines g)) \<and>
   \<not> (\<exists>g\<in>set (groupLines [lineAt 1, lineAt 8, lineAt 16]). lineAt 8 \<in> set (lines g) \<and> lineAt 16 \<in> set (lines g))"
proof -
  have a: "ascending [lineAt 1, lineAt 8, lineAt 16]"
    by (simp add: ascending_def lineAt_def)
  have m: "mergeable [lineAt 1, lineAt 8, lineAt 16]"
    by (simp add: mergeable_def lineAt_def contextLines_def in_int64_small)
  have s7: "Line (lineAt 8) \<le> Line (lineAt 1) + 2 * contextLines + 1"
    and s8: "\<not> Line (lineAt 16) \<le> Line (lineAt 8) + 2 * contextLines + 1"
    by (simp_all add: lineAt_def contextLines_def)
  show ?thesis
    using a m s7 s8
      groupLines_threshold[OF a m, of "[]" "lineAt 1" "lineAt 8" "[lineAt 16]"]
      groupLines_threshold[OF a m, of "[lineAt 1]" "lineAt 8" "lineAt 16" "[]"]
    by simp
qed

text \<open>
  Claim C6 (the groups partition the input). For an ascending list of lines, the lines of
  the groups, concatenated in order, are the input; every line is in exactly one group;
  every group is not empty, starts at the number of its first line, ends at the number of
  its last line, and \<open>start \<le> end\<close>; the groups are in strictly increasing order of their
  start and do not overlap; a later group starts more than \<open>2 * contextLines + 1 = 7\<close> lines
  after the end of an earlier one.
\<close>

theorem groupLines_partition:
  assumes asc: "ascending ls" and mrg: "mergeable ls"
  shows "concat (map lines (groupLines ls)) = ls \<and>
         (\<forall>l\<in>set ls. \<exists>!g. g \<in> set (groupLines ls) \<and> l \<in> set (lines g)) \<and>
         (\<forall>g\<in>set (groupLines ls).
            lines g \<noteq> [] \<and> start g = Line (hd (lines g)) \<and> end' g = Line (last (lines g)) \<and>
            start g \<le> end' g) \<and>
         sorted_wrt (\<lambda>g h. start g < start h) (groupLines ls) \<and>
         sorted_wrt (\<lambda>g h. end' g < start h) (groupLines ls) \<and>
         sorted_wrt (\<lambda>g h. end' g + 2 * contextLines + 1 < start h) (groupLines ls)"
proof -
  let ?gs = "groupLines ls"
  have cc: "concat (map lines ?gs) = ls"
    by (simp add: groupLines_runs comp_def lines_groupOf concat_runs)
  have grp: "lines g \<noteq> [] \<and> start g = Line (hd (lines g)) \<and> end' g = Line (last (lines g)) \<and>
            start g \<le> end' g" if "g \<in> set ?gs" for g
  proof -
    from that obtain r where r: "r \<in> set (runs ls)" "g = groupOf r"
      by (auto simp: groupLines_runs)
    have "r \<noteq> []" using r(1) by (rule runs_nonempty)
    moreover have "Line (hd r) \<le> Line (last r)"
      using runs_ascending[OF asc r(1)] \<open>r \<noteq> []\<close> by (rule ascending_hd_last)
    ultimately show ?thesis by (simp add: r(2) lines_groupOf)
  qed
  have gap: "sorted_wrt (\<lambda>g h. end' g + 2 * contextLines + 1 < start h) ?gs"
    using runs_far[OF asc mrg] by (simp add: groupLines_runs sorted_wrt_map lines_groupOf)
  have nov: "sorted_wrt (\<lambda>g h. end' g < start h) ?gs"
    by (rule sorted_wrt_mono_rel[OF _ gap]) (simp add: contextLines_def)
  have inc: "sorted_wrt (\<lambda>g h. start g < start h) ?gs"
    by (rule sorted_wrt_mono_rel[OF _ nov]) (use grp in force)
  have uniq: "\<exists>!g. g \<in> set ?gs \<and> l \<in> set (lines g)" if l: "l \<in> set ls" for l
  proof -
    from l cc have "l \<in> set (concat (map lines ?gs))" by simp
    then obtain g where g: "g \<in> set ?gs" "l \<in> set (lines g)"
      by auto
    have "h = g" if h: "h \<in> set ?gs" "l \<in> set (lines h)" for h
    proof -
      have "distinct (concat (map lines ?gs))"
        using asc cc by (simp add: ascending_distinct)
      then have "lines h = lines g"
        using g h by (auto simp: distinct_concat_iff)
      then show ?thesis
        using groupOf_lines[OF g(1)] groupOf_lines[OF h(1)] by simp
    qed
    with g show ?thesis by blast
  qed
  have "\<forall>l\<in>set ls. \<exists>!g. g \<in> set ?gs \<and> l \<in> set (lines g)"
    using uniq by (rule ballI)
  moreover have "\<forall>g\<in>set ?gs.
            lines g \<noteq> [] \<and> start g = Line (hd (lines g)) \<and> end' g = Line (last (lines g)) \<and>
            start g \<le> end' g"
    using grp by (rule ballI)
  ultimately show ?thesis
    using cc inc nov gap by (intro conjI)
qed

theorem groupLines_partition_witness:
  "ascending [lineAt 1, lineAt 8, lineAt 16] \<and> mergeable [lineAt 1, lineAt 8, lineAt 16] \<and>
   concat (map lines (groupLines [lineAt 1, lineAt 8, lineAt 16])) = [lineAt 1, lineAt 8, lineAt 16] \<and>
   sorted_wrt (\<lambda>g h. end' g + 2 * contextLines + 1 < start h) (groupLines [lineAt 1, lineAt 8, lineAt 16]) \<and>
   groupLines [lineAt 1, lineAt 8, lineAt 16] =
     [\<lparr>start = 1, end' = 8, lines = [lineAt 1, lineAt 8]\<rparr>, \<lparr>start = 16, end' = 16, lines = [lineAt 16]\<rparr>]"
proof -
  have a: "ascending [lineAt 1, lineAt 8, lineAt 16]"
    by (simp add: ascending_def lineAt_def)
  have m: "mergeable [lineAt 1, lineAt 8, lineAt 16]"
    by (simp add: mergeable_def lineAt_def contextLines_def in_int64_small)
  have ev: "groupLines [lineAt 1, lineAt 8, lineAt 16] =
     [\<lparr>start = 1, end' = 8, lines = [lineAt 1, lineAt 8]\<rparr>, \<lparr>start = 16, end' = 16, lines = [lineAt 16]\<rparr>]"
    by (simp add: groupLines_def lineAt_def contextLines_def wrap64_def)
  from groupLines_partition[OF a m] have
    "concat (map lines (groupLines [lineAt 1, lineAt 8, lineAt 16])) = [lineAt 1, lineAt 8, lineAt 16]"
    "sorted_wrt (\<lambda>g h. end' g + 2 * contextLines + 1 < start h) (groupLines [lineAt 1, lineAt 8, lineAt 16])"
    by blast+
  with a m ev show ?thesis by (intro conjI)
qed

section \<open>Properties of the renderer\<close>

lemma renderLine_append: "renderLine w n content u = w @ renderLine [] n content u"
  by (simp add: renderLine_def Let_def)

lemma fold_uncovered:
  "fold (\<lambda>line s. s(Line line := True)) ls s0 n \<longleftrightarrow> s0 n \<or> n \<in> Line ` set ls"
  by (induction ls arbitrary: s0) auto

lemma uncoveredSet_iff: "uncoveredSet grp n \<longleftrightarrow> n \<in> Line ` set (lines grp)"
  by (simp add: uncoveredSet_def fold_uncovered)

lemma renderLoop_in_range:
  assumes "\<forall>n\<in>set ns. 1 \<le> n \<and> n \<le> int (length allLines)"
  shows "renderLoop w allLines isUnc ns =
           Returns (w @ concat (map (\<lambda>n. renderLine [] n (allLines ! nat (n - 1)) (isUnc n)) ns))"
  using assms
proof (induction ns arbitrary: w)
  case Nil
  then show ?case by simp
next
  case (Cons n ns)
  then have "0 \<le> n - 1 \<and> n - 1 < int (length allLines)" by simp
  then show ?case
    using Cons by (simp add: renderLine_append[of w])
qed

lemma renderGroup_returns:
  "renderGroup w allLines grp =
     Returns (w @ concat (map (lineText allLines grp)
        [max 1 (wrap64 (start grp - contextLines))..
         min (int (length allLines)) (wrap64 (end' grp + contextLines))]))"
proof -
  have mx: "max_int a b = max a b" and mn: "min_int a b = min a b" for a b
    by (simp_all add: max_int_def min_int_def)
  have "(\<lambda>n. renderLine [] n (allLines ! nat (n - 1)) (uncoveredSet grp n)) = lineText allLines grp"
    by (simp add: lineText_def uncoveredSet_iff fun_eq_iff)
  then show ?thesis
    unfolding renderGroup_def Let_def mx mn
    by (subst renderLoop_in_range) auto
qed

lemma Repeat_eq: "Repeat ''='' n = replicate (nat n) CHR ''=''"
  by (induction "nat n" arbitrary: n) (simp_all add: Repeat_def replicate_append_same)

lemma digits_29: "fmt_d 29 = ''29''" and digits_59: "fmt_d 59 = ''59''"
  by code_simp+

text \<open>The digits written for a number denote it.\<close>

lemma of_char_digit: "n < 10 \<Longrightarrow> of_char (digit n) = 48 + n"
  by (simp add: digit_def)

lemma decimal_digits: "decimal (digits n) = n"
proof (induction n rule: digits.induct)
  case (1 n)
  show ?case
  proof (cases "n < 10")
    case True
    then show ?thesis by (subst digits.simps) (simp add: decimal_def of_char_digit)
  next
    case False
    then have "decimal (digits (n div 10)) = n div 10" by (rule 1)
    then show ?thesis
      using False by (subst digits.simps) (simp add: decimal_def of_char_digit)
  qed
qed

lemma renderGroups_returns: "\<exists>w'. renderGroups w allLines i groups = Returns w'"
proof (induction groups arbitrary: w i)
  case Nil
  show ?case by simp
next
  case (Cons g groups)
  show ?case by (simp add: renderGroup_returns Cons.IH)
qed

lemma renderFile_unreadable:
  "readSource fs (FileNameU fu) = Inl err \<Longrightarrow> renderFile fs w fu = Returns (w, Some err)"
  by (auto simp: readSource_def renderFile_def split: sum.splits option.splits prod.splits)

lemma renderFile_readable:
  assumes "readSource fs (FileNameU fu) = Inr allLines"
  shows "\<exists>body. renderFile fs w fu =
           Returns (printFileHeader w (FileNameU fu) (int (length (Lines fu))) (int (length allLines)) @ body, None)"
proof -
  have fs: "fs (FileNameU fu) = Inr (allLines, None)"
    using assms by (auto simp: readSource_def split: sum.splits option.splits prod.splits)
  have app: "\<exists>body. renderGroups w1 ls i groups = Returns (w1 @ body)" for w1 ls i groups
  proof (induction groups arbitrary: w1 i)
    case Nil
    show ?case by simp
  next
    case (Cons g groups)
    obtain b where "renderGroups ((if i > 0 then w1 @ [newline] else w1) @ concat (map (lineText ls g)
        [max 1 (wrap64 (start g - contextLines))..
         min (int (length ls)) (wrap64 (end' g + contextLines))])) ls (Suc i) groups =
      Returns (((if i > 0 then w1 @ [newline] else w1) @ concat (map (lineText ls g)
        [max 1 (wrap64 (start g - contextLines))..
         min (int (length ls)) (wrap64 (end' g + contextLines))])) @ b)"
      using Cons.IH by blast
    then show ?case by (auto simp: renderGroup_returns)
  qed
  obtain body where "renderGroups (printFileHeader w (FileNameU fu) (int (length (Lines fu))) (int (length allLines)))
      allLines 0 (groupLines (Lines fu)) =
      Returns (printFileHeader w (FileNameU fu) (int (length (Lines fu))) (int (length allLines)) @ body)"
    using app by blast
  then show ?thesis
    by (simp add: renderFile_def fs Let_def)
qed

lemma renderFiles_append:
  "renderFiles fs w i (pre @ rest) =
     (case renderFiles fs w i pre of
        Panics \<Rightarrow> Panics
      | Returns (w', Some err) \<Rightarrow> Returns (w', Some err)
      | Returns (w', None) \<Rightarrow> renderFiles fs w' (i + length pre) rest)"
proof (induction pre arbitrary: w i)
  case Nil
  show ?case by simp
next
  case (Cons f pre)
  show ?case
  proof (cases "renderFile fs (if i > 0 then w @ [newline] else w) f")
    case Panics
    then show ?thesis by simp
  next
    case (Returns r)
    obtain w' e where r: "r = (w', e)" by (cases r)
    show ?thesis
      using Returns by (cases e) (simp_all add: r Cons.IH split: run.splits prod.splits option.splits)
  qed
qed

lemma renderFiles_readable:
  assumes "\<forall>f\<in>set pre. \<exists>allLines. readSource fs (FileNameU f) = Inr allLines"
  shows "\<exists>w1. renderFiles fs w i pre = Returns (w1, None)"
  using assms
proof (induction pre arbitrary: w i)
  case Nil
  show ?case by simp
next
  case (Cons f pre)
  then obtain allLines where "readSource fs (FileNameU f) = Inr allLines" by auto
  from renderFile_readable[OF this] obtain w' where
    "renderFile fs (if i > 0 then w @ [newline] else w) f = Returns (w', None)"
    by blast
  then show ?case using Cons by simp
qed


section \<open>Claims about the renderer\<close>



text \<open>
  Claim C7 (the header). \<^verbatim>\<open>printFileHeader\<close> writes the header text
  \<^verbatim>\<open><fileName> (<n> of <m> lines uncovered)\<close>, in bold, and on the next line a rule of
  \<open>=\<close> characters as long as the header text, at most 80. With 29 uncovered of 59 lines
  the header text is the file name followed by 27 characters; for the 21 characters of
  \<^verbatim>\<open>example/calculator.go\<close> the rule has 48 characters.
\<close>

theorem printFileHeader_format:
  "printFileHeader w fileName n m =
     w @ esc # ''[1m'' @ (fileName @ '' ('' @ fmt_d n @ '' of '' @ fmt_d m @ '' lines uncovered)'') @
       esc # ''[0m'' @ [newline] @
       replicate (min 80 (length (fileName @ '' ('' @ fmt_d n @ '' of '' @ fmt_d m @ '' lines uncovered)'')))
         CHR ''='' @ [newline] \<and>
   headerText fileName 29 59 = fileName @ '' (29 of 59 lines uncovered)'' \<and>
   printFileHeader [] ''example/calculator.go'' 29 59 =
     esc # ''[1mexample/calculator.go (29 of 59 lines uncovered)'' @ esc # ''[0m'' @ [newline] @
       replicate 48 CHR ''='' @ [newline]"
proof -
  have mn: "nat (min_int 80 (int k)) = min 80 k" for k
    by (simp add: min_int_def)
  have g: "printFileHeader w fileName n m =
     w @ esc # ''[1m'' @ (fileName @ '' ('' @ fmt_d n @ '' of '' @ fmt_d m @ '' lines uncovered)'') @
       esc # ''[0m'' @ [newline] @
       replicate (min 80 (length (fileName @ '' ('' @ fmt_d n @ '' of '' @ fmt_d m @ '' lines uncovered)'')))
         CHR ''='' @ [newline]" for w fileName n m
    unfolding printFileHeader_def Let_def Repeat_eq mn headerText_def by simp
  have h: "headerText fileName 29 59 = fileName @ '' (29 of 59 lines uncovered)''"
    by (simp add: headerText_def digits_29 digits_59)
  have e: "printFileHeader [] ''example/calculator.go'' 29 59 =
     esc # ''[1mexample/calculator.go (29 of 59 lines uncovered)'' @ esc # ''[0m'' @ [newline] @
       replicate 48 CHR ''='' @ [newline]"
    unfolding g digits_29 digits_59 by (simp add: eval_nat_numeral)
  from g h e show ?thesis by (intro conjI)
qed

text \<open>
  Claim C8 (a source file that cannot be read). When the files before \<open>fu\<close> can be read
  and \<open>fu\<close> cannot be opened or scanned, \<^verbatim>\<open>Render\<close> returns the error wrapped with the file
  name of \<open>fu\<close>. The text written is what \<^verbatim>\<open>Render\<close> writes for the files before \<open>fu\<close>,
  followed by the blank line that separates files when there is a file before \<open>fu\<close>:
  neither the header nor a line of \<open>fu\<close> is written, and no later file is rendered.
\<close>

theorem Render_unreadable:
  assumes split: "uncovered = pre @ fu # post"
    and pre: "\<forall>f\<in>set pre. \<exists>allLines. readSource fs (FileNameU f) = Inr allLines"
    and fail: "readSource fs (FileNameU fu) = Inl err"
  shows "\<exists>w1. Render fs w pre = Returns (w1, None) \<and>
           Render fs w uncovered =
             Returns (if pre = [] then w1 else w1 @ [newline],
                      Some (RenderingError (FileNameU fu) err))"
proof -
  obtain w1 where w1: "renderFiles fs w 0 pre = Returns (w1, None)"
    using renderFiles_readable[OF pre] by blast
  have "renderFiles fs w1 (length pre) (fu # post) =
          Returns (if pre = [] then w1 else w1 @ [newline], Some (RenderingError (FileNameU fu) err))"
    by (simp add: renderFile_unreadable[OF fail])
  then show ?thesis
    using w1 by (simp add: Render_def split renderFiles_append)
qed

theorem Render_unreadable_witness:
  "[\<lparr>FileNameU = ''a.go'', Lines = [lineAt 1]\<rparr>, \<lparr>FileNameU = ''b.go'', Lines = [lineAt 1]\<rparr>] =
     [\<lparr>FileNameU = ''a.go'', Lines = [lineAt 1]\<rparr>] @ \<lparr>FileNameU = ''b.go'', Lines = [lineAt 1]\<rparr> # [] \<and>
   readSource exampleFS ''a.go'' = Inr [''x'', ''y''] \<and>
   readSource exampleFS ''b.go'' = Inl (IOError ''no such file'') \<and>
   Render exampleFS []
     [\<lparr>FileNameU = ''a.go'', Lines = [lineAt 1]\<rparr>, \<lparr>FileNameU = ''b.go'', Lines = [lineAt 1]\<rparr>] =
     Returns (printFileHeader [] ''a.go'' 1 2 @
                renderLine [] 1 ''x'' True @ renderLine [] 2 ''y'' False @ [newline],
              Some (RenderingError ''b.go'' (IOError ''no such file'')))"
proof -
  let ?a = "\<lparr>FileNameU = ''a.go'', Lines = [lineAt 1]\<rparr>"
  let ?b = "\<lparr>FileNameU = ''b.go'', Lines = [lineAt 1]\<rparr>"
  have ra: "readSource exampleFS ''a.go'' = Inr [''x'', ''y'']"
    and rb: "readSource exampleFS ''b.go'' = Inl (IOError ''no such file'')"
    by (simp_all add: readSource_def exampleFS_def)
  have pre: "\<forall>f\<in>set [?a]. \<exists>allLines. readSource exampleFS (FileNameU f) = Inr allLines"
    using ra by simp
  have fail: "readSource exampleFS (FileNameU ?b) = Inl (IOError ''no such file'')"
    using rb by simp
  have ev: "Render exampleFS [] [?a] =
     Returns (printFileHeader [] ''a.go'' 1 2 @ renderLine [] 1 ''x'' True @ renderLine [] 2 ''y'' False, None)"
    by (simp add: Render_def renderFile_def exampleFS_def groupLines_def lineAt_def contextLines_def wrap64_def
      renderGroup_def max_int_def min_int_def uncoveredSet_def upto_rec1 renderLine_append[of "_ @ _"]
      renderLine_append[of "printFileHeader _ _ _ _"])
  from Render_unreadable[OF _ pre fail, of "[?a, ?b]" "[]" "[]"]
  obtain w1 where "Render exampleFS [] [?a] = Returns (w1, None)"
    and "Render exampleFS [] [?a, ?b] =
      Returns (w1 @ [newline], Some (RenderingError ''b.go'' (IOError ''no such file'')))"
    by auto
  with ev ra rb show ?thesis by simp
qed



end
